theory Spec2Isabelle
  imports Main "HOL-Library.Word" "HOL-Library.Multiset"
begin

section \<open>The data model of \<open>LRUCache.h\<close>\<close>

text \<open>
  \<open>std::list<std::pair<Key, Value>>\<close> is a sequence of nodes. A node keeps its identity
  (its address, which is what a list iterator holds) while other nodes are linked in,
  unlinked or moved, so a node is modelled as its identity together with its payload, and
  the list as the sequence of its nodes from \<open>begin()\<close> to the back.
  \<open>std::unordered_map<Key, iterator>\<close> is a partial map from keys to node identities.
  \<open>size_t\<close> is unsigned and the code only compares it, so the field \<open>capacity_\<close> is a
  natural number. The fields keep their names without the trailing underscore, which the
  name of a constant cannot have.
  The mutex is not part of the sequential state.
\<close>

type_synonym iter = nat

type_synonym ('k, 'v) node = "iter \<times> 'k \<times> 'v"

record ('k, 'v) LRUCache =
  capacity :: nat
  items_list :: "('k, 'v) node list"
  items_map :: "'k \<rightharpoonup> iter"

text \<open>
  Undefined behaviour of the standard containers is an error value of the model:
  \<open>back()\<close> on an empty list, and the use of an iterator that designates no node of the list.
\<close>

datatype error = BackOnEmptyList | InvalidIterator

subsection \<open>The operations of \<open>std::list\<close> that the cache uses\<close>

text \<open>Dereferencing an iterator: the payload of the node it designates.\<close>

definition deref :: "('k, 'v) node list \<Rightarrow> iter \<Rightarrow> ('k \<times> 'v) option" where
  "deref l it = map_option snd (find (\<lambda>n. fst n = it) l)"

text \<open>\<open>it->second = value\<close>: assignment to the value of the designated node, in place.\<close>

definition assign_value :: "('k, 'v) node list \<Rightarrow> iter \<Rightarrow> 'v \<Rightarrow> ('k, 'v) node list option" where
  "assign_value l it v =
     (case find (\<lambda>n. fst n = it) l of
        None \<Rightarrow> None
      | Some n \<Rightarrow> Some (map (\<lambda>n'. if fst n' = it then (fst n', fst (snd n'), v) else n') l))"

text \<open>\<open>l.splice(l.begin(), l, it)\<close>: the designated node is unlinked and relinked at the front.\<close>

definition splice_front :: "('k, 'v) node list \<Rightarrow> iter \<Rightarrow> ('k, 'v) node list option" where
  "splice_front l it =
     (case find (\<lambda>n. fst n = it) l of
        None \<Rightarrow> None
      | Some n \<Rightarrow> Some (n # remove1 n l))"

definition list_back :: "('k, 'v) node list \<Rightarrow> error + ('k \<times> 'v)" where
  "list_back l = (if l = [] then Inl BackOnEmptyList else Inr (snd (last l)))"

definition pop_back :: "('k, 'v) node list \<Rightarrow> ('k, 'v) node list" where
  "pop_back l = butlast l"

text \<open>
  \<open>emplace_front\<close> allocates a node. The allocator returns an address that no live node
  has; the model takes the successor of the largest identity in the list.
\<close>

definition fresh_iter :: "('k, 'v) node list \<Rightarrow> iter" where
  "fresh_iter l = Suc (fold max (map fst l) 0)"

definition emplace_front :: "('k, 'v) node list \<Rightarrow> 'k \<Rightarrow> 'v \<Rightarrow> ('k, 'v) node list" where
  "emplace_front l k v = (fresh_iter l, k, v) # l"

text \<open>After \<open>emplace_front\<close>, \<open>begin()\<close> designates the new node.\<close>

definition begin_iter :: "('k, 'v) node list \<Rightarrow> iter option" where
  "begin_iter l = (case l of [] \<Rightarrow> None | n # _ \<Rightarrow> Some (fst n))"

subsection \<open>The public operations\<close>

definition LRUCache_new :: "nat \<Rightarrow> ('k, 'v) LRUCache" where
  "LRUCache_new cap = \<lparr>capacity = cap, items_list = [], items_map = Map.empty\<rparr>"

definition get :: "('k, 'v) LRUCache \<Rightarrow> 'k \<Rightarrow> error + ('v option \<times> ('k, 'v) LRUCache)" where
  "get c key =
     (case items_map c key of
        None \<Rightarrow> Inr (None, c)
      | Some it \<Rightarrow>
          (case splice_front (items_list c) it of
             None \<Rightarrow> Inl InvalidIterator
           | Some l' \<Rightarrow>
               (case deref l' it of
                  None \<Rightarrow> Inl InvalidIterator
                | Some kv \<Rightarrow> Inr (Some (snd kv), c\<lparr>items_list := l'\<rparr>))))"

definition put :: "('k, 'v) LRUCache \<Rightarrow> 'k \<Rightarrow> 'v \<Rightarrow> error + ('k, 'v) LRUCache" where
  "put c key val =
     (case items_map c key of
        Some it \<Rightarrow>
          (case assign_value (items_list c) it val of
             None \<Rightarrow> Inl InvalidIterator
           | Some l1 \<Rightarrow>
               (case splice_front l1 it of
                  None \<Rightarrow> Inl InvalidIterator
                | Some l2 \<Rightarrow> Inr (c\<lparr>items_list := l2\<rparr>)))
      | None \<Rightarrow>
          (case (if length (items_list c) \<ge> capacity c then
                   (case list_back (items_list c) of
                      Inl e \<Rightarrow> Inl e
                    | Inr lru \<Rightarrow>
                        Inr (c\<lparr>items_map := (items_map c)(fst lru := None),
                               items_list := pop_back (items_list c)\<rparr>))
                 else Inr c) of
             Inl e \<Rightarrow> Inl e
           | Inr c1 \<Rightarrow>
               (let l2 = emplace_front (items_list c1) key val
                in case begin_iter l2 of
                     None \<Rightarrow> Inl InvalidIterator
                   | Some b \<Rightarrow> Inr (c1\<lparr>items_list := l2, items_map := (items_map c1)(key \<mapsto> b)\<rparr>))))"

definition exists :: "('k, 'v) LRUCache \<Rightarrow> 'k \<Rightarrow> bool" where
  "exists c key = (items_map c key \<noteq> None)"

definition size_cache :: "('k, 'v) LRUCache \<Rightarrow> nat" where
  "size_cache c = length (items_list c)"

subsection \<open>Sequences of calls\<close>

text \<open>
  A client issues calls one after the other, as \<open>main\<close> does. A call that runs into
  undefined behaviour ends the run with the error.
\<close>

datatype ('k, 'v) call = Get 'k | Put 'k 'v | Exists 'k | Size

datatype 'v reply = GetReply "'v option" | PutReply | ExistsReply bool | SizeReply nat

fun call_step :: "('k, 'v) LRUCache \<Rightarrow> ('k, 'v) call \<Rightarrow> error + ('v reply \<times> ('k, 'v) LRUCache)" where
  "call_step c (Get k) = (case get c k of Inl e \<Rightarrow> Inl e | Inr (r, c') \<Rightarrow> Inr (GetReply r, c'))"
| "call_step c (Put k v) = (case put c k v of Inl e \<Rightarrow> Inl e | Inr c' \<Rightarrow> Inr (PutReply, c'))"
| "call_step c (Exists k) = Inr (ExistsReply (exists c k), c)"
| "call_step c Size = Inr (SizeReply (size_cache c), c)"

fun run :: "('k, 'v) LRUCache \<Rightarrow> ('k, 'v) call list \<Rightarrow> error + ('v reply list \<times> ('k, 'v) LRUCache)" where
  "run c [] = Inr ([], c)"
| "run c (x # xs) =
     (case call_step c x of
        Inl e \<Rightarrow> Inl e
      | Inr (r, c') \<Rightarrow>
          (case run c' xs of
             Inl e \<Rightarrow> Inl e
           | Inr (rs, c'') \<Rightarrow> Inr (r # rs, c'')))"

subsection \<open>Observations of a cache state\<close>

text \<open>The keys of the ordering list from the front (most recently used) to the back.\<close>

definition order_keys :: "('k, 'v) LRUCache \<Rightarrow> 'k list" where
  "order_keys c = map (\<lambda>n. fst (snd n)) (items_list c)"

text \<open>The value that the ordering list stores for a key.\<close>

definition stored_value :: "('k, 'v) LRUCache \<Rightarrow> 'k \<Rightarrow> 'v option" where
  "stored_value c k = map_of (map snd (items_list c)) k"

text \<open>A run observed from outside: the replies and the recency order it ends with.\<close>

definition run_view :: "('k, 'v) LRUCache \<Rightarrow> ('k, 'v) call list \<Rightarrow> error + ('v reply list \<times> 'k list)" where
  "run_view c xs = (case run c xs of Inl e \<Rightarrow> Inl e | Inr (rs, c') \<Rightarrow> Inr (rs, order_keys c'))"

fun is_Exists :: "('k, 'v) call \<Rightarrow> bool" where
  "is_Exists (Exists k) = True"
| "is_Exists (Get k) = False"
| "is_Exists (Put k v) = False"
| "is_Exists Size = False"

fun is_ExistsReply :: "'v reply \<Rightarrow> bool" where
  "is_ExistsReply (ExistsReply b) = True"
| "is_ExistsReply (GetReply r) = False"
| "is_ExistsReply PutReply = False"
| "is_ExistsReply (SizeReply n) = False"

subsection \<open>Recency, as the specification words it\<close>

text \<open>
  A call touches a key when it is a \<open>put\<close> of the key or a \<open>get\<close> of the key that hits.
  \<open>touch_log\<close> collects the keys touched by a run, the most recent touch first, in front
  of the touches \<open>acc\<close> made before the run.
\<close>

fun touched :: "('k, 'v) LRUCache \<Rightarrow> ('k, 'v) call \<Rightarrow> 'k list" where
  "touched c (Get k) = (if exists c k then [k] else [])"
| "touched c (Put k v) = [k]"
| "touched c (Exists k) = []"
| "touched c Size = []"

fun touch_log :: "('k, 'v) LRUCache \<Rightarrow> ('k, 'v) call list \<Rightarrow> 'k list \<Rightarrow> 'k list" where
  "touch_log c [] acc = acc"
| "touch_log c (x # xs) acc =
     (case call_step c x of
        Inl e \<Rightarrow> acc
      | Inr (r, c') \<Rightarrow> touch_log c' xs (touched c x @ acc))"

text \<open>
  The age of a key is the number of touches made since its last touch (the length of the
  log for a key never touched).
\<close>

fun age :: "'k list \<Rightarrow> 'k \<Rightarrow> nat" where
  "age [] k = 0"
| "age (x # xs) k = (if x = k then 0 else Suc (age xs k))"

text \<open>
  A resident key is the least recently touched one when every other resident key was
  touched after it.
\<close>

definition least_recently_touched :: "'k list \<Rightarrow> 'k list \<Rightarrow> 'k \<Rightarrow> bool" where
  "least_recently_touched log residents k \<longleftrightarrow>
     k \<in> set residents \<and> k \<in> set log \<and> (\<forall>k' \<in> set residents. k' \<noteq> k \<longrightarrow> age log k' < age log k)"

subsection \<open>The representation invariant\<close>

text \<open>
  Node identities are pairwise distinct, keys are pairwise distinct, the index maps a key
  to exactly the node that holds it, and the list is no longer than the capacity.
\<close>

definition cache_inv :: "('k, 'v) LRUCache \<Rightarrow> bool" where
  "cache_inv c \<longleftrightarrow>
     distinct (map fst (items_list c)) \<and>
     distinct (order_keys c) \<and>
     (\<forall>k it. items_map c k = Some it \<longleftrightarrow> (\<exists>v. (it, k, v) \<in> set (items_list c))) \<and>
     length (items_list c) \<le> capacity c"

text \<open>The ordering list runs from the most recently to the least recently touched key.\<close>

definition recency_ordered :: "'k list \<Rightarrow> ('k, 'v) LRUCache \<Rightarrow> bool" where
  "recency_ordered log c \<longleftrightarrow>
     sorted_wrt (\<lambda>a b. age log a < age log b) (order_keys c) \<and> set (order_keys c) \<subseteq> set log"

section \<open>Evaluation of the model\<close>

lemmas model_defs = LRUCache_new_def get_def put_def exists_def size_cache_def list_back_def
  pop_back_def emplace_front_def fresh_iter_def begin_iter_def splice_front_def assign_value_def
  deref_def order_keys_def stored_value_def

section \<open>The list operations\<close>

lemma find_node:
  "distinct (map fst l) \<Longrightarrow> (it, kv) \<in> set l \<Longrightarrow> find (\<lambda>n. fst n = it) l = Some (it, kv)"
  by (induction l) (auto simp: rev_image_eqI)

lemma map_remove1_inj:
  "inj_on f (set xs) \<Longrightarrow> x \<in> set xs \<Longrightarrow> map f (remove1 x xs) = remove1 (f x) (map f xs)"
  by (induction xs) (auto simp: inj_on_def)

lemma fold_max_ge: "x \<in> set xs \<Longrightarrow> x \<le> fold max xs (a::nat)"
proof -
  assume "x \<in> set xs"
  then have "x \<le> Max (set (a # xs))" by (intro Max_ge) auto
  then show ?thesis by (simp only: Max.set_eq_fold)
qed

lemma fresh_iter_notin: "fresh_iter l \<notin> fst ` set l"
proof
  assume "fresh_iter l \<in> fst ` set l"
  then have "fresh_iter l \<in> set (map fst l)" by simp
  then have "fresh_iter l \<le> fold max (map fst l) 0" by (rule fold_max_ge)
  then show False by (simp add: fresh_iter_def)
qed

lemma assign_absent:
  "it \<notin> fst ` set l \<Longrightarrow>
   map (\<lambda>n'. if fst n' = it then (fst n', fst (snd n'), v) else n') l = l"
  by (induction l) auto

lemma assign_remove1:
  "distinct (map fst l) \<Longrightarrow> (it, k, v0) \<in> set l \<Longrightarrow>
   remove1 (it, k, v) (map (\<lambda>n'. if fst n' = it then (fst n', fst (snd n'), v) else n') l)
     = remove1 (it, k, v0) l"
  by (induction l) (auto simp: rev_image_eqI assign_absent)

lemma get_hit:
  assumes "cache_inv c" and "items_map c k = Some it"
  shows "\<exists>v. (it, k, v) \<in> set (items_list c) \<and>
             get c k = Inr (Some v, c\<lparr>items_list := (it, k, v) # remove1 (it, k, v) (items_list c)\<rparr>)"
proof -
  from assms obtain v where v: "(it, k, v) \<in> set (items_list c)"
    by (auto simp: cache_inv_def)
  from assms(1) have d: "distinct (map fst (items_list c))" by (simp add: cache_inv_def)
  have "find (\<lambda>n. fst n = it) (items_list c) = Some (it, k, v)"
    using find_node[OF d v] .
  then have "get c k = Inr (Some v, c\<lparr>items_list := (it, k, v) # remove1 (it, k, v) (items_list c)\<rparr>)"
    using assms(2) by (simp add: get_def splice_front_def deref_def)
  with v show ?thesis by blast
qed

lemma put_hit:
  assumes "cache_inv c" and "items_map c k = Some it"
  shows "\<exists>v0. (it, k, v0) \<in> set (items_list c) \<and>
             put c k v = Inr (c\<lparr>items_list := (it, k, v) # remove1 (it, k, v0) (items_list c)\<rparr>)"
proof -
  from assms obtain v0 where v0: "(it, k, v0) \<in> set (items_list c)"
    by (auto simp: cache_inv_def)
  from assms(1) have d: "distinct (map fst (items_list c))" by (simp add: cache_inv_def)
  let ?l1 = "map (\<lambda>n'. if fst n' = it then (fst n', fst (snd n'), v) else n') (items_list c)"
  have f: "find (\<lambda>n. fst n = it) (items_list c) = Some (it, k, v0)"
    using find_node[OF d v0] .
  have d1: "distinct (map fst ?l1)"
    using d by (simp add: comp_def if_distrib cong: if_cong)
  have "(it, k, v) \<in> set ?l1" using v0 by force
  then have f1: "find (\<lambda>n. fst n = it) ?l1 = Some (it, k, v)"
    using find_node[OF d1] by blast
  have "put c k v = Inr (c\<lparr>items_list := (it, k, v) # remove1 (it, k, v) ?l1\<rparr>)"
    using assms(2) f f1 by (simp add: put_def assign_value_def splice_front_def)
  then show ?thesis using assign_remove1[OF d v0] v0 by auto
qed

lemma put_miss:
  assumes "items_map c k = None"
  shows "put c k v =
    (if capacity c \<le> length (items_list c) then
       (if items_list c = [] then Inl BackOnEmptyList
        else Inr (c\<lparr>items_list := (fresh_iter (butlast (items_list c)), k, v) # butlast (items_list c),
                   items_map := ((items_map c)(fst (snd (last (items_list c))) := None))
                                   (k \<mapsto> fresh_iter (butlast (items_list c)))\<rparr>))
     else Inr (c\<lparr>items_list := (fresh_iter (items_list c), k, v) # items_list c,
                 items_map := (items_map c)(k \<mapsto> fresh_iter (items_list c))\<rparr>))"
  using assms by (simp add: put_def list_back_def pop_back_def emplace_front_def begin_iter_def)

lemma inv_move_front:
  assumes "cache_inv c" and "(it, k, v0) \<in> set (items_list c)"
  shows "cache_inv (c\<lparr>items_list := (it, k, v) # remove1 (it, k, v0) (items_list c)\<rparr>)"
    and "order_keys (c\<lparr>items_list := (it, k, v) # remove1 (it, k, v0) (items_list c)\<rparr>)
          = k # remove1 k (order_keys c)"
proof -
  let ?l = "items_list c"
  from assms(1) have d: "distinct (map fst ?l)" and dk: "distinct (map (\<lambda>n. fst (snd n)) ?l)"
    and m: "\<And>k it. items_map c k = Some it \<longleftrightarrow> (\<exists>v. (it, k, v) \<in> set ?l)"
    and len: "length ?l \<le> capacity c"
    by (auto simp: cache_inv_def order_keys_def)
  have i1: "inj_on fst (set ?l)" using d by (simp add: distinct_map)
  have i2: "inj_on (\<lambda>n. fst (snd n)) (set ?l)" using dk by (simp add: distinct_map)
  have r1: "map fst (remove1 (it, k, v0) ?l) = remove1 it (map fst ?l)"
    using map_remove1_inj[OF i1 assms(2)] by simp
  have r2: "map (\<lambda>n. fst (snd n)) (remove1 (it, k, v0) ?l) = remove1 k (map (\<lambda>n. fst (snd n)) ?l)"
    using map_remove1_inj[OF i2 assms(2)] by simp
  show "order_keys (c\<lparr>items_list := (it, k, v) # remove1 (it, k, v0) ?l\<rparr>) = k # remove1 k (order_keys c)"
    by (simp add: order_keys_def r2)
  have dl: "distinct ?l" using d by (simp add: distinct_map)
  have s: "set (remove1 (it, k, v0) ?l) = set ?l - {(it, k, v0)}"
    using dl by simp
  have mk: "items_map c k = Some it" using m assms(2) by blast
  have m': "items_map c k' = Some it' \<longleftrightarrow>
       (\<exists>v'. (it', k', v') \<in> set ((it, k, v) # remove1 (it, k, v0) ?l))" for k' it'
  proof
    assume "items_map c k' = Some it'"
    then obtain v' where v': "(it', k', v') \<in> set ?l" using m by blast
    show "\<exists>v'. (it', k', v') \<in> set ((it, k, v) # remove1 (it, k, v0) ?l)"
    proof (cases "(it', k', v') = (it, k, v0)")
      case True
      then show ?thesis by auto
    next
      case False
      with v' have "(it', k', v') \<in> set (remove1 (it, k, v0) ?l)" by (simp add: s)
      then show ?thesis by auto
    qed
  next
    assume "\<exists>v'. (it', k', v') \<in> set ((it, k, v) # remove1 (it, k, v0) ?l)"
    then obtain v' where "(it', k', v') = (it, k, v) \<or> (it', k', v') \<in> set ?l"
      by (auto simp: s)
    then show "items_map c k' = Some it'"
      using mk m by blast
  qed
  have l': "length ((it, k, v) # remove1 (it, k, v0) ?l) = length ?l"
    using assms(2) by (simp add: length_remove1) (metis Suc_pred length_pos_if_in_set)
  have d1: "distinct (map fst ((it, k, v) # remove1 (it, k, v0) ?l))"
    using d by (simp add: r1)
  have d2: "distinct (map (\<lambda>n. fst (snd n)) ((it, k, v) # remove1 (it, k, v0) ?l))"
    using dk by (simp add: r2)
  show "cache_inv (c\<lparr>items_list := (it, k, v) # remove1 (it, k, v0) ?l\<rparr>)"
    unfolding cache_inv_def order_keys_def
    using d1 d2 len m' l' by simp
qed

lemma inv_insert:
  assumes "cache_inv c" and "items_map c k = None" and "length (items_list c) < capacity c"
  shows "cache_inv (c\<lparr>items_list := (fresh_iter (items_list c), k, v) # items_list c,
                        items_map := (items_map c)(k \<mapsto> fresh_iter (items_list c))\<rparr>)"
proof -
  let ?l = "items_list c" and ?f = "fresh_iter (items_list c)"
  from assms(1) have d: "distinct (map fst ?l)" and dk: "distinct (map (\<lambda>n. fst (snd n)) ?l)"
    and m: "\<And>k it. items_map c k = Some it \<longleftrightarrow> (\<exists>v. (it, k, v) \<in> set ?l)"
    by (auto simp: cache_inv_def order_keys_def)
  have f: "?f \<notin> fst ` set ?l" by (rule fresh_iter_notin)
  have nk: "k \<notin> (\<lambda>n. fst (snd n)) ` set ?l"
  proof
    assume "k \<in> (\<lambda>n. fst (snd n)) ` set ?l"
    then obtain it v' where "(it, k, v') \<in> set ?l" by force
    then have "items_map c k = Some it" using m by blast
    with assms(2) show False by simp
  qed
  have m': "((items_map c)(k \<mapsto> ?f)) k' = Some it' \<longleftrightarrow>
       (\<exists>v'. (it', k', v') \<in> set ((?f, k, v) # ?l))" for k' it'
  proof (cases "k' = k")
    case True
    have "\<And>v'. (it', k, v') \<notin> set ?l" using nk by force
    with True show ?thesis by auto
  next
    case False
    then show ?thesis using m by auto
  qed
  show ?thesis
    unfolding cache_inv_def order_keys_def
    using d dk f nk m' assms(3) by simp
qed

lemma inv_evict:
  assumes "cache_inv c" and "items_list c \<noteq> []"
  shows "cache_inv (c\<lparr>items_list := butlast (items_list c),
                        items_map := (items_map c)(fst (snd (last (items_list c))) := None)\<rparr>)"
proof -
  let ?l = "items_list c"
  obtain it lk lv where last: "last ?l = (it, lk, lv)" by (cases "last ?l") auto
  from assms(1) have d: "distinct (map fst ?l)" and dk: "distinct (map (\<lambda>n. fst (snd n)) ?l)"
    and m: "\<And>k it. items_map c k = Some it \<longleftrightarrow> (\<exists>v. (it, k, v) \<in> set ?l)"
    and len: "length ?l \<le> capacity c"
    by (auto simp: cache_inv_def order_keys_def)
  have split: "?l = butlast ?l @ [(it, lk, lv)]"
    using assms(2) last by (metis append_butlast_last_id)
  have nk: "lk \<notin> (\<lambda>n. fst (snd n)) ` set (butlast ?l)"
    using dk by (subst (asm) split) simp
  have sub: "set (butlast ?l) \<subseteq> set ?l" by (meson in_set_butlastD subsetI)
  have mem: "x \<in> set ?l \<longleftrightarrow> x \<in> set (butlast ?l) \<or> x = (it, lk, lv)" for x
    by (subst split) auto
  have m': "((items_map c)(lk := None)) k' = Some it' \<longleftrightarrow>
       (\<exists>v'. (it', k', v') \<in> set (butlast ?l))" for k' it'
  proof (cases "k' = lk")
    case True
    have "\<And>v'. (it', lk, v') \<notin> set (butlast ?l)" using nk by force
    with True show ?thesis by auto
  next
    case False
    then show ?thesis using m mem by auto
  qed
  have d1: "distinct (map fst (butlast ?l))" using d by (simp add: distinct_butlast map_butlast)
  have d2: "distinct (map (\<lambda>n. fst (snd n)) (butlast ?l))"
    using dk by (simp add: distinct_butlast map_butlast)
  show ?thesis
    unfolding cache_inv_def order_keys_def
    using d1 d2 m' len by (simp add: last)
qed

lemma put_effect:
  assumes "cache_inv c" and "put c k v = Inr c'"
  shows "cache_inv c'"
    and "capacity c' = capacity c"
    and "order_keys c' =
          (if exists c k then k # remove1 k (order_keys c)
           else if capacity c \<le> size_cache c then k # butlast (order_keys c)
           else k # order_keys c)"
proof -
  have "cache_inv c' \<and> capacity c' = capacity c \<and> order_keys c' =
          (if exists c k then k # remove1 k (order_keys c)
           else if capacity c \<le> size_cache c then k # butlast (order_keys c)
           else k # order_keys c)"
  proof (cases "items_map c k")
    case (Some it)
    from put_hit[OF assms(1) Some, of v] obtain v0 where
      v0: "(it, k, v0) \<in> set (items_list c)" and
      p: "put c k v = Inr (c\<lparr>items_list := (it, k, v) # remove1 (it, k, v0) (items_list c)\<rparr>)"
      by blast
    from p assms(2) have c': "c' = c\<lparr>items_list := (it, k, v) # remove1 (it, k, v0) (items_list c)\<rparr>"
      by simp
    show ?thesis
      using inv_move_front[OF assms(1) v0, of v] Some by (simp add: c' exists_def)
  next
    case None
    note p = put_miss[OF None, of v]
    show ?thesis
    proof (cases "capacity c \<le> length (items_list c)")
      case False
      with p assms(2) have c': "c' = c\<lparr>items_list := (fresh_iter (items_list c), k, v) # items_list c,
                 items_map := (items_map c)(k \<mapsto> fresh_iter (items_list c))\<rparr>" by simp
      have "cache_inv c'" unfolding c' using inv_insert[OF assms(1) None] False by simp
      then show ?thesis using None False by (simp add: c' exists_def size_cache_def order_keys_def)
    next
      case True
      with p assms(2) have ne: "items_list c \<noteq> []" by (auto split: if_splits)
      let ?c1 = "c\<lparr>items_list := butlast (items_list c),
                    items_map := (items_map c)(fst (snd (last (items_list c))) := None)\<rparr>"
      have i1: "cache_inv ?c1" by (rule inv_evict[OF assms(1) ne])
      have n1: "items_map ?c1 k = None" using None by simp
      have l1: "length (items_list ?c1) < capacity ?c1"
      proof -
        have "0 < length (items_list c)" using ne by simp
        moreover have "length (items_list c) \<le> capacity c" using assms(1) by (simp add: cache_inv_def)
        ultimately have "length (items_list c) - 1 < capacity c" by linarith
        then show ?thesis by simp
      qed
      from p assms(2) True ne have c': "c' = ?c1\<lparr>items_list := (fresh_iter (items_list ?c1), k, v) # items_list ?c1,
                 items_map := (items_map ?c1)(k \<mapsto> fresh_iter (items_list ?c1))\<rparr>" by simp
      have "cache_inv c'" unfolding c' by (rule inv_insert[OF i1 n1 l1])
      then show ?thesis using None True by (simp add: c' exists_def size_cache_def order_keys_def map_butlast)
    qed
  qed
  then show "cache_inv c'" and "capacity c' = capacity c" and "order_keys c' =
          (if exists c k then k # remove1 k (order_keys c)
           else if capacity c \<le> size_cache c then k # butlast (order_keys c)
           else k # order_keys c)" by blast+
qed

lemma get_effect:
  assumes "cache_inv c" and "get c k = Inr (r, c')"
  shows "cache_inv c'"
    and "capacity c' = capacity c"
    and "order_keys c' = (if exists c k then k # remove1 k (order_keys c) else order_keys c)"
proof -
  have "cache_inv c' \<and> capacity c' = capacity c \<and>
        order_keys c' = (if exists c k then k # remove1 k (order_keys c) else order_keys c)"
  proof (cases "items_map c k")
    case None
    with assms show ?thesis by (simp add: get_def exists_def)
  next
    case (Some it)
    from get_hit[OF assms(1) Some] obtain v where
      v: "(it, k, v) \<in> set (items_list c)" and
      g: "get c k = Inr (Some v, c\<lparr>items_list := (it, k, v) # remove1 (it, k, v) (items_list c)\<rparr>)"
      by blast
    from g assms(2) have c': "c' = c\<lparr>items_list := (it, k, v) # remove1 (it, k, v) (items_list c)\<rparr>"
      by simp
    show ?thesis
      using inv_move_front[OF assms(1) v, of v] Some by (simp add: c' exists_def)
  qed
  then show "cache_inv c'" and "capacity c' = capacity c"
    and "order_keys c' = (if exists c k then k # remove1 k (order_keys c) else order_keys c)"
    by blast+
qed

lemma put_ok:
  assumes "cache_inv c" and "1 \<le> capacity c"
  shows "\<exists>c'. put c k v = Inr c'"
proof (cases "items_map c k")
  case (Some it)
  from put_hit[OF assms(1) Some, of v] show ?thesis by blast
next
  case None
  show ?thesis using put_miss[OF None, of v] assms(2) by auto
qed

lemma get_ok:
  assumes "cache_inv c"
  shows "\<exists>r c'. get c k = Inr (r, c')"
proof (cases "items_map c k")
  case (Some it)
  from get_hit[OF assms(1) Some] show ?thesis by blast
next
  case None
  then show ?thesis by (simp add: get_def)
qed

section \<open>The invariant along a run\<close>

lemma new_inv: "cache_inv (LRUCache_new cap)"
  by (simp add: cache_inv_def LRUCache_new_def order_keys_def)

lemma call_step_inv:
  assumes "cache_inv c" and "call_step c x = Inr (r, c')"
  shows "cache_inv c' \<and> capacity c' = capacity c"
proof (cases x)
  case (Get k)
  with assms(2) obtain r' where "get c k = Inr (r', c')" by (auto split: sum.splits)
  then show ?thesis using get_effect(1,2)[OF assms(1)] by blast
next
  case (Put k v)
  with assms(2) have "put c k v = Inr c'" by (auto split: sum.splits)
  then show ?thesis using put_effect(1,2)[OF assms(1)] by blast
next
  case (Exists k)
  with assms show ?thesis by simp
next
  case Size
  with assms show ?thesis by simp
qed

lemma call_step_ok:
  assumes "cache_inv c" and "1 \<le> capacity c"
  shows "\<exists>r c'. call_step c x = Inr (r, c')"
proof (cases x)
  case (Get k)
  then show ?thesis using get_ok[OF assms(1), of k] by auto
next
  case (Put k v)
  then show ?thesis using put_ok[OF assms, of k v] by auto
qed simp_all

lemma run_inv:
  "cache_inv c \<Longrightarrow> run c xs = Inr (rs, c') \<Longrightarrow> cache_inv c' \<and> capacity c' = capacity c"
proof (induction xs arbitrary: c rs)
  case Nil
  then show ?case by simp
next
  case (Cons x xs)
  from Cons.prems(2) obtain r c1 rs1 where
    s: "call_step c x = Inr (r, c1)" and r: "run c1 xs = Inr (rs1, c')"
    by (auto split: sum.splits)
  from call_step_inv[OF Cons.prems(1) s] have "cache_inv c1" and "capacity c1 = capacity c"
    by simp_all
  with Cons.IH[OF _ r] show ?case by simp
qed

lemma run_ok:
  "cache_inv c \<Longrightarrow> 1 \<le> capacity c \<Longrightarrow> \<exists>rs c'. run c xs = Inr (rs, c')"
proof (induction xs arbitrary: c)
  case Nil
  then show ?case by simp
next
  case (Cons x xs)
  from call_step_ok[OF Cons.prems] obtain r c1 where s: "call_step c x = Inr (r, c1)" by blast
  from call_step_inv[OF Cons.prems(1) s] Cons.prems(2)
  have "cache_inv c1" and "1 \<le> capacity c1" by simp_all
  from Cons.IH[OF this] obtain rs c' where "run c1 xs = Inr (rs, c')" by blast
  with s show ?case by simp
qed

lemma inv_views:
  assumes "cache_inv c"
  shows "dom (items_map c) = set (order_keys c)"
    and "card (dom (items_map c)) = length (items_list c)"
    and "items_map c k = Some it \<Longrightarrow> \<exists>v. deref (items_list c) it = Some (k, v)"
    and "exists c k \<longleftrightarrow> k \<in> set (order_keys c)"
proof -
  from assms have d: "distinct (map fst (items_list c))" and dk: "distinct (order_keys c)"
    and m: "\<And>k it. items_map c k = Some it \<longleftrightarrow> (\<exists>v. (it, k, v) \<in> set (items_list c))"
    by (auto simp: cache_inv_def)
  show dom: "dom (items_map c) = set (order_keys c)"
  proof (rule set_eqI)
    fix k
    have "k \<in> dom (items_map c) \<longleftrightarrow> (\<exists>it. items_map c k = Some it)" by auto
    also have "\<dots> \<longleftrightarrow> (\<exists>it v. (it, k, v) \<in> set (items_list c))" using m by simp
    also have "\<dots> \<longleftrightarrow> k \<in> set (order_keys c)" by (force simp: order_keys_def)
    finally show "k \<in> dom (items_map c) \<longleftrightarrow> k \<in> set (order_keys c)" .
  qed
  show "card (dom (items_map c)) = length (items_list c)"
    using distinct_card[OF dk] by (simp add: dom order_keys_def)
  show "exists c k \<longleftrightarrow> k \<in> set (order_keys c)"
    using dom by (auto simp: exists_def)
  show "\<exists>v. deref (items_list c) it = Some (k, v)" if "items_map c k = Some it"
  proof -
    from that m obtain v where "(it, k, v) \<in> set (items_list c)" by blast
    from find_node[OF d this] show ?thesis by (simp add: deref_def)
  qed
qed

lemma reachable_inv:
  assumes "run (LRUCache_new cap) ops = Inr (rs, c)"
  shows "cache_inv c" and "capacity c = cap"
  using run_inv[OF new_inv assms] by (simp_all add: LRUCache_new_def)

lemma fresh_run_ok:
  assumes "1 \<le> cap"
  shows "\<exists>rs c. run (LRUCache_new cap) xs = Inr (rs, c)"
proof (rule run_ok[OF new_inv])
  show "1 \<le> capacity (LRUCache_new cap)" using assms by (simp add: LRUCache_new_def)
qed

section \<open>The ordering list is ordered by recency\<close>

lemma recency_push:
  assumes "sorted_wrt (\<lambda>a b. age log a < age log b) ks" and "k \<notin> set ks"
  shows "sorted_wrt (\<lambda>a b. age (k # log) a < age (k # log) b) (k # ks)"
proof -
  have "sorted_wrt (\<lambda>a b. age (k # log) a < age (k # log) b) ks"
  proof (rule sorted_wrt_mono_rel[OF _ assms(1)])
    fix x y assume "x \<in> set ks" "y \<in> set ks" "age log x < age log y"
    with assms(2) show "age (k # log) x < age (k # log) y" by auto
  qed
  moreover have "\<forall>y\<in>set ks. age (k # log) k < age (k # log) y"
    using assms(2) by auto
  ultimately show ?thesis by simp
qed

lemma sorted_wrt_remove1_distinct:
  assumes "sorted_wrt P ks" and "distinct ks"
  shows "sorted_wrt P (remove1 k ks)"
proof -
  have "remove1 k ks = filter (\<lambda>y. k \<noteq> y) ks"
    using assms(2) by (simp add: distinct_remove1_removeAll removeAll_filter_not_eq)
  then show ?thesis using sorted_wrt_filter[OF assms(1)] by simp
qed

lemma sorted_wrt_butlast_any:
  assumes "sorted_wrt P ks"
  shows "sorted_wrt P (butlast ks)"
  unfolding butlast_conv_take using assms by (rule sorted_wrt_take)

lemma recency_move_front:
  assumes "recency_ordered log c" and "distinct (order_keys c)"
    and "order_keys c' = k # remove1 k (order_keys c)"
  shows "recency_ordered (k # log) c'"
proof -
  from assms(1) have s: "sorted_wrt (\<lambda>a b. age log a < age log b) (order_keys c)"
    and sub: "set (order_keys c) \<subseteq> set log" by (simp_all add: recency_ordered_def)
  have "k \<notin> set (remove1 k (order_keys c))" using assms(2) by simp
  from recency_push[OF sorted_wrt_remove1_distinct[OF s assms(2)] this]
  have "sorted_wrt (\<lambda>a b. age (k # log) a < age (k # log) b) (order_keys c')"
    by (simp only: assms(3))
  moreover have "set (order_keys c') \<subseteq> set (k # log)"
    using sub assms(2) by (auto simp: assms(3))
  ultimately show ?thesis by (simp add: recency_ordered_def)
qed

lemma recency_insert:
  assumes "recency_ordered log c" and "k \<notin> set (order_keys c)"
    and "order_keys c' = k # butlast (order_keys c) \<or> order_keys c' = k # order_keys c"
  shows "recency_ordered (k # log) c'"
proof -
  from assms(1) have s: "sorted_wrt (\<lambda>a b. age log a < age log b) (order_keys c)"
    and sub: "set (order_keys c) \<subseteq> set log" by (simp_all add: recency_ordered_def)
  from assms(3) show ?thesis
  proof
    assume e: "order_keys c' = k # butlast (order_keys c)"
    have "k \<notin> set (butlast (order_keys c))" using assms(2) by (auto dest: in_set_butlastD)
    from recency_push[OF sorted_wrt_butlast_any[OF s] this]
    have "sorted_wrt (\<lambda>a b. age (k # log) a < age (k # log) b) (order_keys c')"
      by (simp only: e)
    moreover have "set (order_keys c') \<subseteq> set (k # log)"
      using sub by (auto simp: e dest: in_set_butlastD)
    ultimately show ?thesis by (simp add: recency_ordered_def)
  next
    assume e: "order_keys c' = k # order_keys c"
    from recency_push[OF s assms(2)]
    have "sorted_wrt (\<lambda>a b. age (k # log) a < age (k # log) b) (order_keys c')"
      by (simp only: e)
    moreover have "set (order_keys c') \<subseteq> set (k # log)"
      using sub by (auto simp: e)
    ultimately show ?thesis by (simp add: recency_ordered_def)
  qed
qed

lemma call_step_recency:
  assumes "cache_inv c" and "recency_ordered log c" and "call_step c x = Inr (r, c')"
  shows "recency_ordered (touched c x @ log) c'"
proof -
  from assms(1) have dk: "distinct (order_keys c)" by (simp add: cache_inv_def)
  show ?thesis
  proof (cases x)
    case (Get k)
    with assms(3) obtain r' where g: "get c k = Inr (r', c')" by (auto split: sum.splits)
    note e = get_effect(3)[OF assms(1) g]
    show ?thesis
    proof (cases "exists c k")
      case True
      with e have "order_keys c' = k # remove1 k (order_keys c)" by simp
      from recency_move_front[OF assms(2) dk this] show ?thesis using Get True by simp
    next
      case False
      with e have "order_keys c' = order_keys c" by simp
      with assms(2) show ?thesis using Get False by (simp add: recency_ordered_def)
    qed
  next
    case (Put k v)
    with assms(3) have p: "put c k v = Inr c'" by (auto split: sum.splits)
    note e = put_effect(3)[OF assms(1) p]
    show ?thesis
    proof (cases "exists c k")
      case True
      with e have "order_keys c' = k # remove1 k (order_keys c)" by simp
      from recency_move_front[OF assms(2) dk this] show ?thesis using Put by simp
    next
      case False
      then have nk: "k \<notin> set (order_keys c)" using inv_views(4)[OF assms(1)] by simp
      from e False have "order_keys c' = k # butlast (order_keys c) \<or> order_keys c' = k # order_keys c"
        by (simp split: if_splits)
      from recency_insert[OF assms(2) nk this] show ?thesis using Put by simp
    qed
  next
    case (Exists k)
    with assms show ?thesis by (simp add: recency_ordered_def)
  next
    case Size
    with assms show ?thesis by (simp add: recency_ordered_def)
  qed
qed

lemma run_recency:
  "cache_inv c \<Longrightarrow> recency_ordered log c \<Longrightarrow> run c xs = Inr (rs, c') \<Longrightarrow>
   recency_ordered (touch_log c xs log) c'"
proof (induction xs arbitrary: c rs log)
  case Nil
  then show ?case by simp
next
  case (Cons x xs)
  from Cons.prems(3) obtain r c1 rs1 where
    s: "call_step c x = Inr (r, c1)" and r: "run c1 xs = Inr (rs1, c')"
    by (auto split: sum.splits)
  from call_step_inv[OF Cons.prems(1) s] have i1: "cache_inv c1" by simp
  from call_step_recency[OF Cons.prems(1,2) s] have r1: "recency_ordered (touched c x @ log) c1" .
  from Cons.IH[OF i1 r1 r] show ?case using s by simp
qed

lemma reachable_recency:
  assumes "run (LRUCache_new cap) ops = Inr (rs, c)"
  shows "recency_ordered (touch_log (LRUCache_new cap) ops []) c"
proof (rule run_recency[OF new_inv _ assms])
  show "recency_ordered [] (LRUCache_new cap)"
    by (simp add: recency_ordered_def order_keys_def LRUCache_new_def)
qed

lemma last_least_recent:
  assumes "recency_ordered log c" and "distinct (order_keys c)" and "order_keys c \<noteq> []"
  shows "least_recently_touched log (order_keys c) (last (order_keys c))"
proof -
  let ?ks = "order_keys c"
  from assms(1) have s: "sorted_wrt (\<lambda>a b. age log a < age log b) ?ks"
    and sub: "set ?ks \<subseteq> set log" by (simp_all add: recency_ordered_def)
  have split: "?ks = butlast ?ks @ [last ?ks]" using assms(3) by simp
  have "sorted_wrt (\<lambda>a b. age log a < age log b) (butlast ?ks @ [last ?ks])"
    using s by (simp only: split[symmetric])
  then have a: "\<forall>x\<in>set (butlast ?ks). age log x < age log (last ?ks)"
    by (simp add: sorted_wrt_append)
  have "k' \<in> set (butlast ?ks)" if "k' \<in> set ?ks" and "k' \<noteq> last ?ks" for k'
  proof -
    from that(1) have "k' \<in> set (butlast ?ks @ [last ?ks])" by (simp only: split[symmetric])
    with that(2) show ?thesis by simp
  qed
  with a have "\<forall>k'\<in>set ?ks. k' \<noteq> last ?ks \<longrightarrow> age log k' < age log (last ?ks)" by blast
  moreover have "last ?ks \<in> set ?ks" using assms(3) by simp
  ultimately show ?thesis using sub by (auto simp: least_recently_touched_def)
qed

section \<open>Stored values\<close>

lemma map_of_butlast:
  "distinct (map fst xs) \<Longrightarrow> xs \<noteq> [] \<Longrightarrow> map_of (butlast xs) = (map_of xs)(fst (last xs) := None)"
proof (induction xs)
  case Nil
  then show ?case by simp
next
  case (Cons x xs)
  show ?case
  proof (cases "xs = []")
    case True
    then show ?thesis by (auto simp: fun_eq_iff)
  next
    case False
    then have "last xs \<in> set xs" by simp
    then have "fst (last xs) \<in> fst ` set xs" by (rule imageI)
    moreover have "fst x \<notin> fst ` set xs" using Cons.prems(1) by simp
    ultimately have "fst (last xs) \<noteq> fst x" by metis
    then show ?thesis using Cons False by (auto simp: fun_eq_iff)
  qed
qed

lemma map_of_remove1:
  "distinct (map fst xs) \<Longrightarrow> (a, b) \<in> set xs \<Longrightarrow> map_of (remove1 (a, b) xs) = (map_of xs)(a := None)"
proof (induction xs)
  case Nil
  then show ?case by simp
next
  case (Cons x xs)
  show ?case
  proof (cases "x = (a, b)")
    case True
    then have "a \<notin> fst ` set xs" using Cons.prems(1) by simp
    then have "map_of xs a = None" by (simp add: map_of_eq_None_iff)
    then show ?thesis using True by (auto simp: fun_eq_iff)
  next
    case False
    with Cons.prems have in_xs: "(a, b) \<in> set xs" by simp
    then have "fst (a, b) \<in> fst ` set xs" by (rule imageI)
    moreover have "fst x \<notin> fst ` set xs" using Cons.prems(1) by simp
    ultimately have "fst x \<noteq> a" by (metis fst_conv)
    then show ?thesis using Cons.IH in_xs Cons.prems(1) False
      by (cases x) (auto simp: fun_eq_iff)
  qed
qed

lemma set_butlast_distinct:
  assumes "distinct ks" and "ks \<noteq> []"
  shows "set (butlast ks) = set ks - {last ks}"
proof -
  have split: "ks = butlast ks @ [last ks]" using assms(2) by simp
  have "distinct (butlast ks @ [last ks])" using assms(1) by (simp only: split[symmetric])
  then have "last ks \<notin> set (butlast ks)" by simp
  moreover have "set ks = set (butlast ks) \<union> {last ks}"
    by (subst split) simp
  ultimately show ?thesis by auto
qed

lemma move_front_views:
  assumes "cache_inv c" and "(it, k, v0) \<in> set (items_list c)"
    and c'_def: "c' = c\<lparr>items_list := (it, k, v) # remove1 (it, k, v0) (items_list c)\<rparr>"
  shows "stored_value c k = Some v0"
    and "stored_value c' = (stored_value c)(k \<mapsto> v)"
    and "size_cache c' = size_cache c"
    and "set (order_keys c') = set (order_keys c)"
    and "set (map fst (items_list c')) = set (map fst (items_list c))"
proof -
  let ?l = "items_list c"
  from assms(1) have d: "distinct (map fst ?l)" and dk: "distinct (map (\<lambda>n. fst (snd n)) ?l)"
    by (auto simp: cache_inv_def order_keys_def)
  have dl: "distinct ?l" using d by (simp add: distinct_map)
  have ds: "distinct (map fst (map snd ?l))" using dk by (simp add: comp_def)
  then have inj_s: "inj_on snd (set ?l)" using dk by (auto simp: distinct_map inj_on_def)
  have kv: "(k, v0) \<in> set (map snd ?l)" using assms(2) by force
  show sv: "stored_value c k = Some v0"
    using ds kv by (simp add: stored_value_def)
  have "map snd (remove1 (it, k, v0) ?l) = remove1 (k, v0) (map snd ?l)"
    using map_remove1_inj[OF inj_s assms(2)] by simp
  then have "map_of (map snd (remove1 (it, k, v0) ?l)) = (map_of (map snd ?l))(k := None)"
    using map_of_remove1[OF ds kv] by simp
  then show "stored_value c' = (stored_value c)(k \<mapsto> v)"
    by (simp add: stored_value_def fun_eq_iff c'_def)
  show "size_cache c' = size_cache c"
    using assms(2) by (simp add: size_cache_def c'_def length_remove1)
       (metis One_nat_def Suc_pred length_pos_if_in_set)
  show "set (order_keys c') = set (order_keys c)"
    using inv_move_front(2)[OF assms(1,2), of v] assms(1) inv_views(1)[OF assms(1)] assms(2)
    by (force simp: c'_def cache_inv_def order_keys_def)
  show "set (map fst (items_list c')) = set (map fst (items_list c))"
  proof -
    have "it \<in> fst ` set ?l" using assms(2) by force
    then show ?thesis using dl by (auto simp: c'_def)
  qed
qed

section \<open>Calls to \<open>exists\<close> inside a run\<close>

lemma call_step_reply_kind:
  "call_step c x = Inr (r, c') \<Longrightarrow> is_ExistsReply r = is_Exists x"
  by (cases x) (auto split: sum.splits)

lemma run_without_exists:
  "run c (filter (\<lambda>x. \<not> is_Exists x) xs) =
     (case run c xs of
        Inl e \<Rightarrow> Inl e
      | Inr (rs, c') \<Rightarrow> Inr (filter (\<lambda>r. \<not> is_ExistsReply r) rs, c'))"
proof (induction xs arbitrary: c)
  case Nil
  then show ?case by simp
next
  case (Cons x xs)
  show ?case
  proof (cases x)
    case (Exists k)
    then show ?thesis using Cons.IH[of c] by (simp split: sum.splits)
  next
    case (Get k)
    then show ?thesis using Cons.IH by (simp split: sum.splits)
  next
    case (Put k v)
    then show ?thesis using Cons.IH by (simp split: sum.splits)
  next
    case Size
    then show ?thesis using Cons.IH by (simp split: sum.splits)
  qed
qed

section \<open>Eviction\<close>

text \<open>
  C1. In a state reached from a fresh cache that holds at least one key and is at capacity,
  \<open>put\<close> of a key that is not resident succeeds and removes exactly the back key of the
  ordering list. That key is the least recently touched resident key: every other resident
  key has been touched (by a \<open>put\<close> or a \<open>get\<close> hit) after it. The new key is placed at
  the front, all other keys keep their order and values, and the size stays equal to the
  capacity, so there is exactly one eviction.
\<close>

theorem put_at_capacity_evicts_lru:
  assumes "run (LRUCache_new cap) ops = Inr (rs, c)"
    and "items_list c \<noteq> []"
    and "size_cache c = capacity c"
    and "\<not> exists c k"
  shows "\<exists>c'. put c k v = Inr c'
           \<and> least_recently_touched (touch_log (LRUCache_new cap) ops []) (order_keys c)
                 (last (order_keys c))
           \<and> order_keys c' = k # butlast (order_keys c)
           \<and> set (order_keys c') = insert k (set (order_keys c) - {last (order_keys c)})
           \<and> dom (items_map c') = insert k (dom (items_map c) - {last (order_keys c)})
           \<and> stored_value c' = ((stored_value c)(last (order_keys c) := None))(k \<mapsto> v)
           \<and> size_cache c' = size_cache c
           \<and> size_cache c' \<le> capacity c'
           \<and> capacity c' = capacity c"
proof -
  note i = reachable_inv(1)[OF assms(1)]
  let ?l = "items_list c" and ?ks = "order_keys c"
  from i have dk: "distinct ?ks" by (simp add: cache_inv_def)
  have ne: "?ks \<noteq> []" using assms(2) by (simp add: order_keys_def)
  have lk: "last ?ks = fst (snd (last ?l))" using assms(2) by (simp add: order_keys_def last_map)
  from assms(4) have m: "items_map c k = None" by (simp add: exists_def)
  let ?c' = "c\<lparr>items_list := (fresh_iter (butlast ?l), k, v) # butlast ?l,
                 items_map := ((items_map c)(fst (snd (last ?l)) := None))
                                 (k \<mapsto> fresh_iter (butlast ?l))\<rparr>"
  have p: "put c k v = Inr ?c'"
    using put_miss[OF m, of v] assms(2,3) by (simp add: size_cache_def)
  note e = put_effect[OF i p]
  have lrt: "least_recently_touched (touch_log (LRUCache_new cap) ops []) ?ks (last ?ks)"
    by (rule last_least_recent[OF reachable_recency[OF assms(1)] dk ne])
  have ok: "order_keys ?c' = k # butlast ?ks"
    by (simp add: order_keys_def map_butlast)
  have sk: "set (order_keys ?c') = insert k (set ?ks - {last ?ks})"
    using set_butlast_distinct[OF dk ne] by (simp only: ok) simp
  have dm: "dom (items_map ?c') = insert k (dom (items_map c) - {last ?ks})"
    using inv_views(1)[OF e(1)] inv_views(1)[OF i] sk by simp
  have dsn: "distinct (map fst (map snd ?l))" using dk by (simp add: order_keys_def comp_def)
  have "map_of (map snd (butlast ?l)) = (map_of (map snd ?l))(last ?ks := None)"
    using map_of_butlast[OF dsn] assms(2) by (simp add: map_butlast lk last_map)
  then have sv: "stored_value ?c' = ((stored_value c)(last ?ks := None))(k \<mapsto> v)"
    by (simp add: stored_value_def fun_eq_iff)
  have sz: "size_cache ?c' = size_cache c"
    using assms(2) by (simp add: size_cache_def)
  have le: "size_cache ?c' \<le> capacity ?c'" using e(1) by (simp add: cache_inv_def size_cache_def)
  from p lrt ok sk dm sv sz le show ?thesis by simp
qed

theorem put_at_capacity_evicts_lru_witness:
  "\<exists>rs c. run (LRUCache_new 2) [Put (1::32 word) ''a'', Put 2 ''b'', Get 1] = Inr (rs, c)
      \<and> order_keys c = [1, 2]
      \<and> items_list c \<noteq> [] \<and> size_cache c = capacity c \<and> \<not> exists c 3
      \<and> (\<exists>c'. put c 3 ''c'' = Inr c'
           \<and> least_recently_touched
                 (touch_log (LRUCache_new 2) [Put (1::32 word) ''a'', Put 2 ''b'', Get 1] [])
                 (order_keys c) (last (order_keys c))
           \<and> order_keys c' = 3 # butlast (order_keys c)
           \<and> set (order_keys c') = insert 3 (set (order_keys c) - {last (order_keys c)})
           \<and> dom (items_map c') = insert 3 (dom (items_map c) - {last (order_keys c)})
           \<and> stored_value c' = ((stored_value c)(last (order_keys c) := None))(3 \<mapsto> ''c'')
           \<and> size_cache c' = size_cache c
           \<and> size_cache c' \<le> capacity c'
           \<and> capacity c' = capacity c)"
proof -
  have "\<exists>rs c. run (LRUCache_new 2) [Put (1::32 word) ''a'', Put 2 ''b'', Get 1] = Inr (rs, c)
      \<and> order_keys c = [1, 2]
      \<and> items_list c \<noteq> [] \<and> size_cache c = capacity c \<and> \<not> exists c 3"
    by (simp add: model_defs)
  then obtain rs c where h: "run (LRUCache_new 2) [Put (1::32 word) ''a'', Put 2 ''b'', Get 1] = Inr (rs, c)"
    "items_list c \<noteq> []" "size_cache c = capacity c" "\<not> exists c 3"
    and o: "order_keys c = [1, 2]" by blast
  from put_at_capacity_evicts_lru[OF h, of "''c''"] h o show ?thesis by blast
qed

section \<open>The capacity bound\<close>

text \<open>
  C2. For a capacity of at least 1, every sequence of calls on a fresh cache runs without
  error, and after every call (after each prefix \<open>take n ops\<close> of the sequence) the size is
  at most the capacity, which is still the one given to the constructor.
\<close>

theorem size_never_exceeds_capacity:
  assumes "1 \<le> cap"
  shows "\<exists>rs c. run (LRUCache_new cap) (take n ops) = Inr (rs, c)
               \<and> size_cache c \<le> cap \<and> capacity c = cap"
proof -
  from fresh_run_ok[OF assms] obtain rs c
    where r: "run (LRUCache_new cap) (take n ops) = Inr (rs, c)" by blast
  from reachable_inv[OF r] have "size_cache c \<le> cap" and "capacity c = cap"
    by (auto simp: cache_inv_def size_cache_def)
  with r show ?thesis by blast
qed

theorem size_never_exceeds_capacity_witness:
  "(1::nat) \<le> 2 \<and>
   (\<exists>rs c. run (LRUCache_new 2)
              (take 4 [Put (1::32 word) ''a'', Put 2 ''b'', Get 1, Put 3 ''c'', Exists 2]) = Inr (rs, c)
          \<and> size_cache c \<le> 2 \<and> capacity c = 2)"
  using size_never_exceeds_capacity[of 2 4 "[Put (1::32 word) ''a'', Put 2 ''b'', Get 1, Put 3 ''c'', Exists 2]"]
  by simp

section \<open>Lookup of a resident key\<close>

text \<open>
  C3. In a state reached from a fresh cache, \<open>get\<close> of a resident key returns the value
  stored for it and moves the key to the front of the ordering list, the other keys keeping
  their relative order. No stored value changes, and neither do the size, the set of
  resident keys, the index or the capacity.
\<close>

theorem get_hit_moves_to_front:
  assumes "run (LRUCache_new cap) ops = Inr (rs, c)" and "exists c k"
  shows "\<exists>v c'. get c k = Inr (Some v, c')
           \<and> stored_value c k = Some v
           \<and> order_keys c' = k # remove1 k (order_keys c)
           \<and> stored_value c' = stored_value c
           \<and> size_cache c' = size_cache c
           \<and> set (order_keys c') = set (order_keys c)
           \<and> items_map c' = items_map c
           \<and> capacity c' = capacity c"
proof -
  note i = reachable_inv(1)[OF assms(1)]
  from assms(2) obtain it where m: "items_map c k = Some it" by (auto simp: exists_def)
  from get_hit[OF i m] obtain v where
    v: "(it, k, v) \<in> set (items_list c)" and
    g: "get c k = Inr (Some v, c\<lparr>items_list := (it, k, v) # remove1 (it, k, v) (items_list c)\<rparr>)"
    by blast
  define c' where "c' = c\<lparr>items_list := (it, k, v) # remove1 (it, k, v) (items_list c)\<rparr>"
  note w = move_front_views[OF i v c'_def]
  have "stored_value c' = stored_value c"
    using w(1,2) by (auto simp: fun_eq_iff)
  moreover have "order_keys c' = k # remove1 k (order_keys c)"
    unfolding c'_def by (rule inv_move_front(2)[OF i v])
  moreover have "items_map c' = items_map c" and "capacity c' = capacity c"
    by (simp_all add: c'_def)
  moreover have "get c k = Inr (Some v, c')" using g by (simp add: c'_def)
  ultimately show ?thesis using w(1,3,4) by blast
qed

theorem get_hit_moves_to_front_witness:
  "\<exists>rs c. run (LRUCache_new 3) [Put (1::32 word) ''one'', Put 2 ''two'', Put 3 ''three''] = Inr (rs, c)
      \<and> exists c 2
      \<and> (\<exists>v c'. get c 2 = Inr (Some v, c')
           \<and> stored_value c 2 = Some v
           \<and> order_keys c' = 2 # remove1 2 (order_keys c)
           \<and> stored_value c' = stored_value c
           \<and> size_cache c' = size_cache c
           \<and> set (order_keys c') = set (order_keys c)
           \<and> items_map c' = items_map c
           \<and> capacity c' = capacity c)"
proof -
  have "\<exists>rs c. run (LRUCache_new 3) [Put (1::32 word) ''one'', Put 2 ''two'', Put 3 ''three''] = Inr (rs, c)
      \<and> exists c 2"
    by (simp add: model_defs)
  then obtain rs c where h: "run (LRUCache_new 3) [Put (1::32 word) ''one'', Put 2 ''two'', Put 3 ''three''] = Inr (rs, c)"
    "exists c 2" by blast
  from get_hit_moves_to_front[OF h] h show ?thesis by blast
qed

section \<open>Update of a resident key\<close>

text \<open>
  C4. In a state reached from a fresh cache, \<open>put\<close> of a resident key with value \<open>v2\<close>
  stores \<open>v2\<close> for the key in the node it already has (the index and the set of node
  identities are unchanged), leaves every other stored value alone, makes the key the front
  of the ordering list, and changes neither the size nor the set of resident keys.
\<close>

theorem put_existing_updates_in_place:
  assumes "run (LRUCache_new cap) ops = Inr (rs, c)" and "exists c k"
  shows "\<exists>c'. put c k v2 = Inr c'
           \<and> stored_value c' = (stored_value c)(k \<mapsto> v2)
           \<and> order_keys c' = k # remove1 k (order_keys c)
           \<and> size_cache c' = size_cache c
           \<and> set (order_keys c') = set (order_keys c)
           \<and> items_map c' = items_map c
           \<and> set (map fst (items_list c')) = set (map fst (items_list c))
           \<and> capacity c' = capacity c"
proof -
  note i = reachable_inv(1)[OF assms(1)]
  from assms(2) obtain it where m: "items_map c k = Some it" by (auto simp: exists_def)
  from put_hit[OF i m, of v2] obtain v0 where
    v0: "(it, k, v0) \<in> set (items_list c)" and
    p: "put c k v2 = Inr (c\<lparr>items_list := (it, k, v2) # remove1 (it, k, v0) (items_list c)\<rparr>)"
    by blast
  define c' where "c' = c\<lparr>items_list := (it, k, v2) # remove1 (it, k, v0) (items_list c)\<rparr>"
  note w = move_front_views[OF i v0 c'_def]
  have "order_keys c' = k # remove1 k (order_keys c)"
    unfolding c'_def by (rule inv_move_front(2)[OF i v0])
  moreover have "items_map c' = items_map c" and "capacity c' = capacity c"
    by (simp_all add: c'_def)
  moreover have "put c k v2 = Inr c'" using p by (simp add: c'_def)
  ultimately show ?thesis using w(2,3,4,5) by blast
qed

theorem put_existing_updates_in_place_witness:
  "\<exists>rs c. run (LRUCache_new 3) [Put (1::32 word) ''one'', Put 2 ''two'', Put 3 ''three''] = Inr (rs, c)
      \<and> exists c 1
      \<and> (\<exists>c'. put c 1 ''uno'' = Inr c'
           \<and> stored_value c' = (stored_value c)(1 \<mapsto> ''uno'')
           \<and> order_keys c' = 1 # remove1 1 (order_keys c)
           \<and> size_cache c' = size_cache c
           \<and> set (order_keys c') = set (order_keys c)
           \<and> items_map c' = items_map c
           \<and> set (map fst (items_list c')) = set (map fst (items_list c))
           \<and> capacity c' = capacity c)"
proof -
  have "\<exists>rs c. run (LRUCache_new 3) [Put (1::32 word) ''one'', Put 2 ''two'', Put 3 ''three''] = Inr (rs, c)
      \<and> exists c 1"
    by (simp add: model_defs)
  then obtain rs c where h: "run (LRUCache_new 3) [Put (1::32 word) ''one'', Put 2 ''two'', Put 3 ''three''] = Inr (rs, c)"
    "exists c 1" by blast
  from put_existing_updates_in_place[OF h, of "''uno''"] h show ?thesis by blast
qed

section \<open>Lookup of an absent key\<close>

text \<open>
  C5. In any cache state, \<open>get\<close> of a key that is not resident returns the disengaged
  optional and the state after the call is the state before it.
\<close>

theorem get_miss_changes_nothing:
  assumes "\<not> exists c k"
  shows "get c k = Inr (None, c) \<and> call_step c (Get k) = Inr (GetReply None, c)"
  using assms by (simp add: get_def exists_def)

theorem get_miss_changes_nothing_witness:
  "\<not> exists (LRUCache_new 3) (7::32 word)
   \<and> get (LRUCache_new 3 :: (32 word, string) LRUCache) 7 = Inr (None, LRUCache_new 3)
   \<and> call_step (LRUCache_new 3 :: (32 word, string) LRUCache) (Get 7) = Inr (GetReply None, LRUCache_new 3)"
  using get_miss_changes_nothing[of "LRUCache_new 3 :: (32 word, string) LRUCache" 7]
  by (simp add: exists_def LRUCache_new_def)

section \<open>Membership test\<close>

text \<open>
  C6. In a state reached from a fresh cache, \<open>exists\<close> is true exactly for the keys in
  the ordering list, and the call leaves the state as it is. Hence removing all \<open>exists\<close>
  calls from any further sequence of calls gives the same final state (or the same error)
  and the same replies to the remaining calls.
\<close>

theorem exists_is_pure:
  assumes "run (LRUCache_new cap) ops = Inr (rs, c)"
  shows "(exists c k \<longleftrightarrow> k \<in> set (order_keys c))
       \<and> call_step c (Exists k) = Inr (ExistsReply (exists c k), c)
       \<and> run c (filter (\<lambda>x. \<not> is_Exists x) calls) =
           (case run c calls of
              Inl e \<Rightarrow> Inl e
            | Inr (rs', c') \<Rightarrow> Inr (filter (\<lambda>r. \<not> is_ExistsReply r) rs', c'))"
  using inv_views(4)[OF reachable_inv(1)[OF assms]] run_without_exists[of c calls] by simp

theorem exists_is_pure_witness:
  "\<exists>rs c. run (LRUCache_new 2) [Put (1::32 word) ''a'', Put 2 ''b''] = Inr (rs, c)
      \<and> (exists c 1 \<longleftrightarrow> 1 \<in> set (order_keys c))
      \<and> call_step c (Exists 1) = Inr (ExistsReply (exists c 1), c)
      \<and> run c (filter (\<lambda>x. \<not> is_Exists x) [Exists 1, Put 3 ''c'', Exists 1, Get 1]) =
           (case run c [Exists 1, Put 3 ''c'', Exists 1, Get 1] of
              Inl e \<Rightarrow> Inl e
            | Inr (rs', c') \<Rightarrow> Inr (filter (\<lambda>r. \<not> is_ExistsReply r) rs', c'))"
proof -
  have "\<exists>rs c. run (LRUCache_new 2) [Put (1::32 word) ''a'', Put 2 ''b''] = Inr (rs, c)"
    by (simp add: model_defs)
  then obtain rs c where h: "run (LRUCache_new 2) [Put (1::32 word) ''a'', Put 2 ''b''] = Inr (rs, c)"
    by blast
  from exists_is_pure[OF h, of 1 "[Exists 1, Put 3 ''c'', Exists 1, Get 1]"] h show ?thesis by blast
qed

section \<open>Agreement of index and ordering list\<close>

text \<open>
  C7. For a capacity of at least 1, every sequence of public calls on a fresh cache runs
  without error and ends in a state where the index and the ordering list hold the same
  keys, both have the same number of entries, at most the capacity, and every key of the
  index is mapped to an iterator whose node in the list holds that key.
\<close>

theorem index_and_list_agree:
  assumes "1 \<le> cap"
  shows "\<exists>rs c. run (LRUCache_new cap) ops = Inr (rs, c)
               \<and> dom (items_map c) = set (order_keys c)
               \<and> card (dom (items_map c)) = length (items_list c)
               \<and> length (items_list c) \<le> cap
               \<and> (\<forall>k it. items_map c k = Some it \<longrightarrow> (\<exists>v. deref (items_list c) it = Some (k, v)))"
proof -
  from fresh_run_ok[OF assms] obtain rs c
    where r: "run (LRUCache_new cap) ops = Inr (rs, c)" by blast
  note i = reachable_inv[OF r]
  have "length (items_list c) \<le> cap" using i by (simp add: cache_inv_def)
  with r inv_views(1,2,3)[OF i(1)] show ?thesis by blast
qed

theorem index_and_list_agree_witness:
  "(1::nat) \<le> 2 \<and>
   (\<exists>rs c. run (LRUCache_new 2) [Put (1::32 word) ''a'', Put 2 ''b'', Get 1, Put 3 ''c'', Size] = Inr (rs, c)
          \<and> dom (items_map c) = set (order_keys c)
          \<and> card (dom (items_map c)) = length (items_list c)
          \<and> length (items_list c) \<le> 2
          \<and> (\<forall>k it. items_map c k = Some it \<longrightarrow> (\<exists>v. deref (items_list c) it = Some (k, v))))"
  using index_and_list_agree[of 2 "[Put (1::32 word) ''a'', Put 2 ''b'', Get 1, Put 3 ''c'', Size]"]
  by simp

section \<open>The demonstration program\<close>

text \<open>
  C8. The scenario of the example \<open>main\<close> in \<open>LRUCache.h\<close>, on a cache of capacity 3 with
  \<open>int\<close> keys and string values: after \<open>put(1,"one"); put(2,"two"); put(3,"three")\<close> the
  order from most to least recently used is \<open>[3,2,1]\<close>; \<open>get(2)\<close> returns \<open>"two"\<close> and the
  order becomes \<open>[2,3,1]\<close>; \<open>put(4,"four")\<close> evicts key 1 and the order becomes \<open>[4,2,3]\<close>;
  then \<open>exists(1)\<close> is false and \<open>exists(3)\<close> is true.
\<close>

theorem demo_scenario:
  "run_view (LRUCache_new 3) [Put (1::32 word) ''one'', Put 2 ''two'', Put 3 ''three'']
     = Inr ([PutReply, PutReply, PutReply], [3, 2, 1])
   \<and> run_view (LRUCache_new 3) [Put (1::32 word) ''one'', Put 2 ''two'', Put 3 ''three'', Get 2]
     = Inr ([PutReply, PutReply, PutReply, GetReply (Some ''two'')], [2, 3, 1])
   \<and> run_view (LRUCache_new 3)
        [Put (1::32 word) ''one'', Put 2 ''two'', Put 3 ''three'', Get 2, Put 4 ''four'']
     = Inr ([PutReply, PutReply, PutReply, GetReply (Some ''two''), PutReply], [4, 2, 3])
   \<and> run_view (LRUCache_new 3)
        [Put (1::32 word) ''one'', Put 2 ''two'', Put 3 ''three'', Get 2, Put 4 ''four'',
         Exists 1, Exists 3]
     = Inr ([PutReply, PutReply, PutReply, GetReply (Some ''two''), PutReply,
             ExistsReply False, ExistsReply True], [4, 2, 3])"
  by (simp add: run_view_def model_defs)

section \<open>The eviction branch and capacity zero\<close>

text \<open>
  C10. With a capacity of at least 1, in every state reached from a fresh cache the eviction
  branch of \<open>put\<close> (key not in the index, size at least the capacity) finds a non-empty
  list, so \<open>back()\<close> has an element to read and the call succeeds; and no sequence of calls
  runs into an error. With capacity 0, the first \<open>put\<close> on the fresh cache calls \<open>back()\<close>
  on the empty list.
\<close>

theorem eviction_reads_nonempty_list:
  "(1 \<le> cap \<and> run (LRUCache_new cap) ops = Inr (rs, c) \<and> \<not> exists c k \<and> capacity c \<le> size_cache c
      \<longrightarrow> items_list c \<noteq> [] \<and> list_back (items_list c) = Inr (snd (last (items_list c)))
          \<and> (\<exists>c'. put c k v = Inr c'))
   \<and> (1 \<le> cap \<longrightarrow> (\<exists>rs' c'. run (LRUCache_new cap) ops = Inr (rs', c')))
   \<and> put (LRUCache_new 0) k v = Inl BackOnEmptyList"
proof (intro conjI impI)
  assume a: "1 \<le> cap \<and> run (LRUCache_new cap) ops = Inr (rs, c) \<and> \<not> exists c k
              \<and> capacity c \<le> size_cache c"
  then have r: "run (LRUCache_new cap) ops = Inr (rs, c)" by simp
  note i = reachable_inv[OF r]
  from a i(2) have "1 \<le> length (items_list c)" by (simp add: size_cache_def)
  then show "items_list c \<noteq> []" by auto
  then show "list_back (items_list c) = Inr (snd (last (items_list c)))"
    by (simp add: list_back_def)
  show "\<exists>c'. put c k v = Inr c'"
    using put_ok[OF i(1)] a i(2) by simp
next
  assume "1 \<le> cap"
  then show "\<exists>rs' c'. run (LRUCache_new cap) ops = Inr (rs', c')" by (rule fresh_run_ok)
next
  show "put (LRUCache_new 0) k v = Inl BackOnEmptyList"
    by (simp add: put_def LRUCache_new_def list_back_def)
qed

theorem eviction_reads_nonempty_list_witness:
  "\<exists>rs c. (1::nat) \<le> 1 \<and> run (LRUCache_new 1) [Put (1::32 word) ''a'', Put 2 ''b''] = Inr (rs, c)
      \<and> \<not> exists c 3 \<and> capacity c \<le> size_cache c
      \<and> items_list c \<noteq> [] \<and> list_back (items_list c) = Inr (snd (last (items_list c)))
      \<and> (\<exists>c'. put c 3 ''c'' = Inr c')
      \<and> put (LRUCache_new 0) (3::32 word) ''c'' = Inl BackOnEmptyList"
proof -
  have "\<exists>rs c. run (LRUCache_new 1) [Put (1::32 word) ''a'', Put 2 ''b''] = Inr (rs, c)
      \<and> \<not> exists c 3 \<and> capacity c \<le> size_cache c"
    by (simp add: model_defs)
  then obtain rs c where h: "run (LRUCache_new 1) [Put (1::32 word) ''a'', Put 2 ''b''] = Inr (rs, c)"
    "\<not> exists c 3" "capacity c \<le> size_cache c" by blast
  from eviction_reads_nonempty_list[of 1 "[Put (1::32 word) ''a'', Put 2 ''b'']" rs c 3 "''c''"] h
  show ?thesis by auto
qed

end
